theory Spec2Isabelle
  imports Main "HOL-Library.AList"
begin

section \<open>Data model of the store engine\<close>

text \<open>
  The store of \<^verbatim>\<open>createStore\<close> keeps values of an arbitrary TypeScript type \<^verbatim>\<open>T[K]\<close>.
  What the code observes of a value is only whether it is \<^verbatim>\<open>undefined\<close>; the model
  keeps a small universe of JavaScript values with \<^verbatim>\<open>undefined\<close> as a value of its own,
  since a \<^verbatim>\<open>Map\<close> can hold the key with the value \<^verbatim>\<open>undefined\<close>.
\<close>

datatype jsval =
    Undefined
  | Null
  | JBool bool
  | JNum int
  | JStr string
  | JObj "(string \<times> jsval) list"

text \<open>A listener is a function reference; the model keeps its identity.\<close>

type_synonym listener = nat

text \<open>A validator throws an \<^verbatim>\<open>Error\<close> with a message, or returns.\<close>

type_synonym validator = "jsval \<Rightarrow> string option"

text \<open>\<^verbatim>\<open>interface BroadcastMessage\<close>: the three optional fields are \<^verbatim>\<open>undefined\<close> when absent.\<close>

datatype msg_type = MSet | MDelete | MClear

record broadcast_message =
  mtype :: msg_type
  mkey :: "string option"
  mvalue :: jsval
  moldValue :: jsval

text \<open>
  Every call that leaves the engine is recorded, in the order the code makes it:
  the requests to IndexedDB, the calls of local listeners, the \<^verbatim>\<open>CustomEvent\<close>
  dispatched on \<^verbatim>\<open>window\<close>, and \<^verbatim>\<open>channel.postMessage\<close>.
\<close>

datatype effect =
    DbOpen string string
  | DbGet string
  | DbPut string jsval
  | DbDelete string
  | DbGetAll
  | DbClear
  | Invoke listener jsval jsval
  | Emit string jsval jsval
  | Post broadcast_message

text \<open>What the caller of an operation sees when the promise is rejected.\<close>

datatype error =
    ValidationError string
  | PersistenceError
  | ListenerError listener
  | TransportError

text \<open>
  \<^verbatim>\<open>dbPromise\<close> is \<^verbatim>\<open>null\<close> until the first \<^verbatim>\<open>getDb\<close>; afterwards it is the promise
  of \<^verbatim>\<open>openDatabase\<close>, resolved or rejected, and it is never replaced.
\<close>

datatype conn = ConnOpen | ConnFailed

text \<open>
  The behaviour of the collaborators during one call: whether \<^verbatim>\<open>indexedDB.open\<close>
  fails, whether the request on the object store fails, which listener throws on which
  arguments, and whether \<^verbatim>\<open>postMessage\<close> throws.
\<close>

record env =
  open_fails :: bool
  db_fails :: bool
  listener_throws :: "listener \<Rightarrow> jsval \<Rightarrow> jsval \<Rightarrow> bool"
  post_fails :: bool

text \<open>
  The closure of \<^verbatim>\<open>createStore\<close>: the resolved options, \<^verbatim>\<open>cache\<close>, \<^verbatim>\<open>listeners\<close>
  (a \<^verbatim>\<open>Map\<close> of \<^verbatim>\<open>Set\<close>s, both iterated in insertion order), \<^verbatim>\<open>dbPromise\<close>, and the
  channel; together with the object store of IndexedDB (\<open>idb\<close>) and the record of the
  calls made so far (\<open>trace\<close>).
\<close>

record store =
  dbName :: string
  storeName :: string
  channelName :: string
  validators :: "string \<rightharpoonup> validator"
  cache :: "string \<rightharpoonup> jsval"
  listeners :: "(string \<times> listener list) list"
  dbPromise :: "conn option"
  channel_closed :: bool
  idb :: "string \<rightharpoonup> jsval"
  trace :: "effect list"

record store_options =
  opt_dbName :: "string option"
  opt_storeName :: "string option"
  opt_channelName :: "string option"
  opt_validators :: "(string \<rightharpoonup> validator) option"

type_synonym 'a result = "(error + 'a) \<times> store"

section \<open>Sequencing\<close>

text \<open>An exception (or a rejected \<^verbatim>\<open>await\<close>) ends the function; the state stays as it is.\<close>

definition and_then :: "'a result \<Rightarrow> ('a \<Rightarrow> store \<Rightarrow> 'b result) \<Rightarrow> 'b result" where
  "and_then r f = (case r of (Inl e, s) \<Rightarrow> (Inl e, s) | (Inr x, s) \<Rightarrow> f x s)"

definition record_effect :: "effect \<Rightarrow> store \<Rightarrow> store" where
  "record_effect e s = s\<lparr>trace := trace s @ [e]\<rparr>"

section \<open>IndexedDB helpers\<close>

definition getDb :: "env \<Rightarrow> store \<Rightarrow> unit result" where
  "getDb ev s =
     (case dbPromise s of
        None \<Rightarrow>
          (let s' = record_effect (DbOpen (dbName s) (storeName s)) s in
           if open_fails ev then (Inl PersistenceError, s'\<lparr>dbPromise := Some ConnFailed\<rparr>)
           else (Inr (), s'\<lparr>dbPromise := Some ConnOpen\<rparr>))
      | Some ConnOpen \<Rightarrow> (Inr (), s)
      | Some ConnFailed \<Rightarrow> (Inl PersistenceError, s))"

definition dbGet :: "env \<Rightarrow> string \<Rightarrow> store \<Rightarrow> jsval result" where
  "dbGet ev key s =
     (let s' = record_effect (DbGet key) s in
      if db_fails ev then (Inl PersistenceError, s')
      else (Inr (case idb s key of None \<Rightarrow> Undefined | Some v \<Rightarrow> v), s'))"

definition dbSet :: "env \<Rightarrow> string \<Rightarrow> jsval \<Rightarrow> store \<Rightarrow> unit result" where
  "dbSet ev key v s =
     (let s' = record_effect (DbPut key v) s in
      if db_fails ev then (Inl PersistenceError, s')
      else (Inr (), s'\<lparr>idb := (idb s)(key \<mapsto> v)\<rparr>))"

definition dbDelete :: "env \<Rightarrow> string \<Rightarrow> store \<Rightarrow> unit result" where
  "dbDelete ev key s =
     (let s' = record_effect (DbDelete key) s in
      if db_fails ev then (Inl PersistenceError, s')
      else (Inr (), s'\<lparr>idb := (idb s)(key := None)\<rparr>))"

text \<open>
  The cursor loop collects the entries in a plain object, \<^verbatim>\<open>result[cursor.key] = cursor.value\<close>.
  Assigning to the key \<^verbatim>\<open>__proto__\<close> of a plain object creates no own property, so an
  entry stored under that key is not part of the result.
\<close>

definition dbGetAll :: "env \<Rightarrow> store \<Rightarrow> (string \<rightharpoonup> jsval) result" where
  "dbGetAll ev s =
     (let s' = record_effect DbGetAll s in
      if db_fails ev then (Inl PersistenceError, s')
      else (Inr ((idb s)(''__proto__'' := None)), s'))"

definition dbClear :: "env \<Rightarrow> store \<Rightarrow> unit result" where
  "dbClear ev s =
     (let s' = record_effect DbClear s in
      if db_fails ev then (Inl PersistenceError, s')
      else (Inr (), s'\<lparr>idb := Map.empty\<rparr>))"

section \<open>Event helpers\<close>

definition createEventName :: "string \<Rightarrow> string \<Rightarrow> string" where
  "createEventName chan key = ''store:'' @ chan @ '':'' @ key"

text \<open>\<^verbatim>\<open>window.dispatchEvent\<close> reports what a handler throws; it does not throw itself.\<close>

definition emitLocalEvent :: "string \<Rightarrow> string \<Rightarrow> jsval \<Rightarrow> jsval \<Rightarrow> store \<Rightarrow> store" where
  "emitLocalEvent chan key v oldValue s =
     record_effect (Emit (createEventName chan key) v oldValue) s"

section \<open>Store factory\<close>

definition createStore :: "store_options \<Rightarrow> (string \<rightharpoonup> jsval) \<Rightarrow> store" where
  "createStore options disk =
     (let dbn = (case opt_dbName options of None \<Rightarrow> ''mfe-store'' | Some n \<Rightarrow> n);
          stn = (case opt_storeName options of None \<Rightarrow> ''store'' | Some n \<Rightarrow> n);
          chn = (case opt_channelName options of None \<Rightarrow> dbn | Some n \<Rightarrow> n)
      in \<lparr>dbName = dbn, storeName = stn, channelName = chn,
          validators = (case opt_validators options of None \<Rightarrow> Map.empty | Some vs \<Rightarrow> vs),
          cache = Map.empty, listeners = [], dbPromise = None, channel_closed = False,
          idb = disk, trace = []\<rparr>)"

text \<open>\<^verbatim>\<open>cache.get(key)\<close>: \<^verbatim>\<open>undefined\<close> when the key is absent.\<close>

definition cache_get :: "store \<Rightarrow> string \<Rightarrow> jsval" where
  "cache_get s key = (case cache s key of None \<Rightarrow> Undefined | Some v \<Rightarrow> v)"

text \<open>\<^verbatim>\<open>keyListeners.forEach((listener) => listener(value, oldValue))\<close>\<close>

fun call_listeners :: "env \<Rightarrow> listener list \<Rightarrow> jsval \<Rightarrow> jsval \<Rightarrow> store \<Rightarrow> unit result" where
  "call_listeners ev [] v oldValue s = (Inr (), s)"
| "call_listeners ev (l # ls) v oldValue s =
     (let s' = record_effect (Invoke l v oldValue) s in
      if listener_throws ev l v oldValue then (Inl (ListenerError l), s')
      else call_listeners ev ls v oldValue s')"

definition notifyListeners :: "env \<Rightarrow> string \<Rightarrow> jsval \<Rightarrow> jsval \<Rightarrow> store \<Rightarrow> unit result" where
  "notifyListeners ev key v oldValue s =
     and_then
       (case map_of (listeners s) key of
          None \<Rightarrow> (Inr (), s)
        | Some keyListeners \<Rightarrow> call_listeners ev keyListeners v oldValue s)
       (\<lambda>_ s'. (Inr (), emitLocalEvent (channelName s') key v oldValue s'))"

text \<open>\<^verbatim>\<open>listeners.forEach((_, key) => notifyListeners(key, undefined, undefined))\<close>\<close>

fun notify_each :: "env \<Rightarrow> string list \<Rightarrow> store \<Rightarrow> unit result" where
  "notify_each ev [] s = (Inr (), s)"
| "notify_each ev (key # keys) s =
     and_then (notifyListeners ev key Undefined Undefined s) (\<lambda>_ s'. notify_each ev keys s')"

text \<open>\<^verbatim>\<open>channel.postMessage\<close> throws on a closed channel, or when the transport fails.\<close>

definition postMessage :: "env \<Rightarrow> broadcast_message \<Rightarrow> store \<Rightarrow> unit result" where
  "postMessage ev m s =
     (let s' = record_effect (Post m) s in
      if channel_closed s \<or> post_fails ev then (Inl TransportError, s') else (Inr (), s'))"

text \<open>\<^verbatim>\<open>channel.onmessage\<close>\<close>

definition onmessage :: "env \<Rightarrow> broadcast_message \<Rightarrow> store \<Rightarrow> unit result" where
  "onmessage ev m s =
     (if mtype m = MSet \<and> mkey m \<noteq> None \<and> mvalue m \<noteq> Undefined then
        (case mkey m of
           None \<Rightarrow> (Inr (), s)
         | Some key \<Rightarrow>
             notifyListeners ev key (mvalue m) (moldValue m)
               (s\<lparr>cache := (cache s)(key \<mapsto> mvalue m)\<rparr>))
      else if mtype m = MDelete \<and> mkey m \<noteq> None then
        (case mkey m of
           None \<Rightarrow> (Inr (), s)
         | Some key \<Rightarrow>
             (let old = cache_get s key in
              notifyListeners ev key Undefined old (s\<lparr>cache := (cache s)(key := None)\<rparr>)))
      else if mtype m = MClear then
        notify_each ev (map fst (listeners s)) (s\<lparr>cache := Map.empty\<rparr>)
      else (Inr (), s))"

section \<open>Public API\<close>

text \<open>
  Each operation is one run of its \<^verbatim>\<open>async\<close> body from the call to the settled
  promise: the result is \<open>Inr\<close> when the promise resolves and \<open>Inl\<close> when it is
  rejected, and the state is the one the body leaves behind either way. What other
  callbacks do while an \<^verbatim>\<open>await\<close> is pending is outside a single run.
\<close>

definition get :: "env \<Rightarrow> string \<Rightarrow> store \<Rightarrow> jsval result" where
  "get ev key s =
     (case cache s key of
        Some v \<Rightarrow> (Inr v, s)
      | None \<Rightarrow>
          and_then (getDb ev s) (\<lambda>_ s1.
          and_then (dbGet ev key s1) (\<lambda>v s2.
            (Inr v, if v \<noteq> Undefined then s2\<lparr>cache := (cache s2)(key \<mapsto> v)\<rparr> else s2))))"

definition set_store :: "env \<Rightarrow> string \<Rightarrow> jsval \<Rightarrow> store \<Rightarrow> unit result" where
  "set_store ev key v s =
     (case (case validators s key of None \<Rightarrow> None | Some validator \<Rightarrow> validator v) of
        Some msg \<Rightarrow> (Inl (ValidationError msg), s)
      | None \<Rightarrow>
          (let oldValue = cache_get s key;
               s0 = s\<lparr>cache := (cache s)(key \<mapsto> v)\<rparr>
           in and_then (getDb ev s0) (\<lambda>_ s1.
              and_then (dbSet ev key v s1) (\<lambda>_ s2.
              and_then (notifyListeners ev key v oldValue s2) (\<lambda>_ s3.
                postMessage ev
                  \<lparr>mtype = MSet, mkey = Some key, mvalue = v, moldValue = oldValue\<rparr> s3)))))"

definition del :: "env \<Rightarrow> string \<Rightarrow> store \<Rightarrow> unit result" where
  "del ev key s =
     (let oldValue = cache_get s key;
          s0 = s\<lparr>cache := (cache s)(key := None)\<rparr>
      in and_then (getDb ev s0) (\<lambda>_ s1.
         and_then (dbDelete ev key s1) (\<lambda>_ s2.
         and_then (notifyListeners ev key Undefined oldValue s2) (\<lambda>_ s3.
           postMessage ev
             \<lparr>mtype = MDelete, mkey = Some key, mvalue = Undefined, moldValue = oldValue\<rparr>
             s3))))"

text \<open>\<^verbatim>\<open>Set.add\<close>: a listener already in the set keeps its place.\<close>

definition set_add :: "listener \<Rightarrow> listener list \<Rightarrow> listener list" where
  "set_add l ls = (if l \<in> set ls then ls else ls @ [l])"

text \<open>The function \<^verbatim>\<open>subscribe\<close> returns: it closes over \<^verbatim>\<open>key\<close> and \<^verbatim>\<open>listener\<close>.\<close>

definition unsubscribe :: "string \<Rightarrow> listener \<Rightarrow> store \<Rightarrow> store" where
  "unsubscribe key l s =
     (case map_of (listeners s) key of
        None \<Rightarrow> s
      | Some keyListeners \<Rightarrow>
          (let ls' = removeAll l keyListeners;
               reg = AList.update key ls' (listeners s)
           in if length ls' = 0 then s\<lparr>listeners := AList.delete key reg\<rparr>
              else s\<lparr>listeners := reg\<rparr>))"

definition subscribe :: "string \<Rightarrow> listener \<Rightarrow> store \<Rightarrow> store \<times> (store \<Rightarrow> store)" where
  "subscribe key l s =
     (let reg = (if map_of (listeners s) key = None then AList.update key [] (listeners s)
                 else listeners s);
          keyListeners = (case map_of reg key of None \<Rightarrow> [] | Some ls \<Rightarrow> ls)
      in (s\<lparr>listeners := AList.update key (set_add l keyListeners) reg\<rparr>, unsubscribe key l))"

definition getAll :: "env \<Rightarrow> store \<Rightarrow> (string \<rightharpoonup> jsval) result" where
  "getAll ev s =
     and_then (getDb ev s) (\<lambda>_ s1.
     and_then (dbGetAll ev s1) (\<lambda>all s2. (Inr all, s2\<lparr>cache := cache s2 ++ all\<rparr>)))"

definition clear :: "env \<Rightarrow> store \<Rightarrow> unit result" where
  "clear ev s =
     (let s0 = s\<lparr>cache := Map.empty\<rparr>
      in and_then (getDb ev s0) (\<lambda>_ s1.
         and_then (dbClear ev s1) (\<lambda>_ s2.
         and_then (notify_each ev (map fst (listeners s2)) s2) (\<lambda>_ s3.
           postMessage ev
             \<lparr>mtype = MClear, mkey = None, mvalue = Undefined, moldValue = Undefined\<rparr> s3))))"

definition destroy :: "store \<Rightarrow> store" where
  "destroy s = s\<lparr>channel_closed := True, listeners := [], cache := Map.empty, dbPromise := None\<rparr>"

section \<open>Vocabulary of the properties\<close>

text \<open>The listeners registered for a key, in the order \<^verbatim>\<open>forEach\<close> visits them.\<close>

definition listeners_of :: "store \<Rightarrow> string \<Rightarrow> listener list" where
  "listeners_of s key = (case map_of (listeners s) key of None \<Rightarrow> [] | Some ls \<Rightarrow> ls)"

text \<open>Whether \<^verbatim>\<open>listener\<close> is a member of the set the registry holds for \<^verbatim>\<open>key\<close>.\<close>

definition registered :: "store \<Rightarrow> string \<Rightarrow> listener \<Rightarrow> bool" where
  "registered s key l = (l \<in> set (listeners_of s key))"

text \<open>A local notification: a listener call or an event on \<^verbatim>\<open>window\<close>.\<close>

fun is_local :: "effect \<Rightarrow> bool" where
  "is_local (Invoke l v w) = True"
| "is_local (Emit n v w) = True"
| "is_local e = False"

text \<open>The messages handed to \<^verbatim>\<open>channel.postMessage\<close>, oldest first.\<close>

fun posts :: "effect list \<Rightarrow> broadcast_message list" where
  "posts [] = []"
| "posts (Post m # es) = m # posts es"
| "posts (e # es) = posts es"

text \<open>One round of \<^verbatim>\<open>notifyListeners\<close> that runs to its end.\<close>

definition notifications :: "store \<Rightarrow> string \<Rightarrow> jsval \<Rightarrow> jsval \<Rightarrow> effect list" where
  "notifications s key v oldValue =
     map (\<lambda>l. Invoke l v oldValue) (listeners_of s key)
       @ [Emit (createEventName (channelName s) key) v oldValue]"

text \<open>What \<^verbatim>\<open>getDb\<close> asks of IndexedDB: the database is opened on the first use only.\<close>

definition open_effects :: "store \<Rightarrow> effect list" where
  "open_effects s =
     (case dbPromise s of None \<Rightarrow> [DbOpen (dbName s) (storeName s)] | Some c \<Rightarrow> [])"

text \<open>The step between the cache update and the notification fails.\<close>

definition persistence_fails :: "env \<Rightarrow> store \<Rightarrow> bool" where
  "persistence_fails ev s =
     (case dbPromise s of
        None \<Rightarrow> open_fails ev \<or> db_fails ev
      | Some ConnOpen \<Rightarrow> db_fails ev
      | Some ConnFailed \<Rightarrow> True)"

text \<open>The effects an operation added to the record.\<close>

definition effects_since :: "store \<Rightarrow> store \<Rightarrow> effect list" where
  "effects_since s s' = drop (length (trace s)) (trace s')"

section \<open>Example configuration\<close>

text \<open>The validators of the README: \<^verbatim>\<open>username\<close> is a string of at least two characters.\<close>

definition username_validator :: validator where
  "username_validator v =
     (case v of
        JStr x \<Rightarrow> (if length x < 2 then Some ''username must be at least 2 characters'' else None)
      | _ \<Rightarrow> Some ''username must be a string'')"

definition default_options :: store_options where
  "default_options =
     \<lparr>opt_dbName = None, opt_storeName = None, opt_channelName = None, opt_validators = None\<rparr>"

definition validating_options :: store_options where
  "validating_options =
     \<lparr>opt_dbName = Some ''validation-test'', opt_storeName = None, opt_channelName = None,
      opt_validators = Some [''username'' \<mapsto> username_validator]\<rparr>"

text \<open>Nothing fails.\<close>

definition env_ok :: env where
  "env_ok = \<lparr>open_fails = False, db_fails = False,
     listener_throws = (\<lambda>l v w. False), post_fails = False\<rparr>"

text \<open>The object store rejects the request (quota, backend fault).\<close>

definition env_db_down :: env where
  "env_db_down = \<lparr>open_fails = False, db_fails = True,
     listener_throws = (\<lambda>l v w. False), post_fails = False\<rparr>"

text \<open>The channel refuses the message.\<close>

definition env_post_down :: env where
  "env_post_down = \<lparr>open_fails = False, db_fails = False,
     listener_throws = (\<lambda>l v w. False), post_fails = True\<rparr>"

text \<open>A fresh default store on an empty database, with listeners 1 and 2 on \<^verbatim>\<open>user\<close>
  and listener 3 on \<^verbatim>\<open>count\<close>.\<close>

definition fresh_store :: store where
  "fresh_store = createStore default_options Map.empty"

definition subscribed_store :: store where
  "subscribed_store =
     fst (subscribe ''count'' 3 (fst (subscribe ''user'' 2 (fst (subscribe ''user'' 1 fresh_store)))))"

definition validating_store :: store where
  "validating_store = createStore validating_options Map.empty"

section \<open>Sequencing and notification lemmas\<close>

lemma call_listeners_ok:
  "call_listeners ev ls v old s = (Inr u, s') \<Longrightarrow>
     s' = s\<lparr>trace := trace s @ map (\<lambda>l. Invoke l v old) ls\<rparr>"
proof (induction ls arbitrary: s)
  case Nil
  then show ?case by simp
next
  case (Cons l ls)
  let ?s1 = "s\<lparr>trace := trace s @ [Invoke l v old]\<rparr>"
  from Cons.prems have "call_listeners ev ls v old ?s1 = (Inr u, s')"
    by (simp add: Let_def record_effect_def split: if_splits)
  from Cons.IH [OF this] show ?case by simp
qed

lemma call_listeners_quiet:
  "list_all (\<lambda>l. \<not> listener_throws ev l v old) ls \<Longrightarrow>
     call_listeners ev ls v old s = (Inr (), s\<lparr>trace := trace s @ map (\<lambda>l. Invoke l v old) ls\<rparr>)"
  by (induction ls arbitrary: s) (auto simp: Let_def record_effect_def)

lemma call_listeners_frame:
  "\<exists>es. snd (call_listeners ev ls v old s) = s\<lparr>trace := trace s @ es\<rparr> \<and> list_all is_local es"
proof (induction ls arbitrary: s)
  case Nil
  have "s = s\<lparr>trace := trace s @ []\<rparr>" by simp
  moreover have "list_all is_local []" by simp
  ultimately show ?case by (metis call_listeners.simps(1) snd_conv)
next
  case (Cons l ls)
  let ?s1 = "record_effect (Invoke l v old) s"
  show ?case
  proof (cases "listener_throws ev l v old")
    case True
    then have "snd (call_listeners ev (l # ls) v old s) = s\<lparr>trace := trace s @ [Invoke l v old]\<rparr>"
      by (simp add: Let_def record_effect_def)
    moreover have "list_all is_local [Invoke l v old]" by simp
    ultimately show ?thesis by blast
  next
    case False
    from Cons.IH [of ?s1] obtain es where
      es: "snd (call_listeners ev ls v old ?s1) = ?s1\<lparr>trace := trace ?s1 @ es\<rparr>" "list_all is_local es"
      by blast
    from False es(1) have "snd (call_listeners ev (l # ls) v old s) = s\<lparr>trace := trace s @ (Invoke l v old # es)\<rparr>"
      by (simp add: Let_def record_effect_def)
    moreover from es(2) have "list_all is_local (Invoke l v old # es)" by simp
    ultimately show ?thesis by blast
  qed
qed

lemma notifyListeners_ok:
  "notifyListeners ev key v old s = (Inr u, s') \<Longrightarrow>
     s' = s\<lparr>trace := trace s @ notifications s key v old\<rparr>"
  unfolding notifyListeners_def and_then_def notifications_def listeners_of_def
  by (auto simp: emitLocalEvent_def record_effect_def
      split: option.splits sum.splits prod.splits dest!: call_listeners_ok)

lemma notifyListeners_quiet:
  "list_all (\<lambda>l. \<not> listener_throws ev l v old) (listeners_of s key) \<Longrightarrow>
     notifyListeners ev key v old s = (Inr (), s\<lparr>trace := trace s @ notifications s key v old\<rparr>)"
  unfolding notifyListeners_def and_then_def notifications_def listeners_of_def
  by (auto simp: emitLocalEvent_def record_effect_def call_listeners_quiet
      split: option.splits)

lemma notifyListeners_frame:
  "\<exists>es. snd (notifyListeners ev key v old s) = s\<lparr>trace := trace s @ es\<rparr> \<and> list_all is_local es"
proof (cases "map_of (listeners s) key")
  case None
  then have "snd (notifyListeners ev key v old s)
      = s\<lparr>trace := trace s @ [Emit (createEventName (channelName s) key) v old]\<rparr>"
    by (simp add: notifyListeners_def and_then_def emitLocalEvent_def record_effect_def)
  moreover have "list_all is_local [Emit (createEventName (channelName s) key) v old]" by simp
  ultimately show ?thesis by blast
next
  case (Some ls)
  obtain es where es: "snd (call_listeners ev ls v old s) = s\<lparr>trace := trace s @ es\<rparr>"
      "list_all is_local es"
    using call_listeners_frame by blast
  obtain r s1 where c: "call_listeners ev ls v old s = (r, s1)" by (cases "call_listeners ev ls v old s")
  with es have s1: "s1 = s\<lparr>trace := trace s @ es\<rparr>" by simp
  show ?thesis
  proof (cases r)
    case (Inl e)
    with Some c s1 have "snd (notifyListeners ev key v old s) = s\<lparr>trace := trace s @ es\<rparr>"
      by (simp add: notifyListeners_def and_then_def)
    with es(2) show ?thesis by blast
  next
    case (Inr u)
    with Some c s1 have "snd (notifyListeners ev key v old s)
        = s\<lparr>trace := trace s @ (es @ [Emit (createEventName (channelName s) key) v old])\<rparr>"
      by (simp add: notifyListeners_def and_then_def emitLocalEvent_def record_effect_def)
    moreover from es(2) have "list_all is_local (es @ [Emit (createEventName (channelName s) key) v old])"
      by simp
    ultimately show ?thesis by blast
  qed
qed

lemma and_then_Inr:
  "and_then r f = (Inr y, s') \<longleftrightarrow> (\<exists>x s1. r = (Inr x, s1) \<and> f x s1 = (Inr y, s'))"
  by (auto simp: and_then_def split: prod.splits sum.splits)

lemma posts_append: "posts (xs @ ys) = posts xs @ posts ys"
  by (induction xs rule: posts.induct) simp_all

lemma getDb_ok:
  "getDb ev s = (Inr u, s') \<Longrightarrow>
     s' = s\<lparr>dbPromise := Some ConnOpen, trace := trace s @ open_effects s\<rparr>"
  by (auto simp: getDb_def open_effects_def record_effect_def Let_def
      split: option.splits conn.splits if_splits)

lemma dbSet_ok:
  "dbSet ev key v s = (Inr u, s') \<Longrightarrow>
     s' = s\<lparr>idb := (idb s)(key \<mapsto> v), trace := trace s @ [DbPut key v]\<rparr>"
  by (auto simp: dbSet_def record_effect_def Let_def split: if_splits)

lemma postMessage_ok:
  "postMessage ev m s = (Inr u, s') \<Longrightarrow> s' = s\<lparr>trace := trace s @ [Post m]\<rparr>"
  by (auto simp: postMessage_def record_effect_def Let_def split: if_splits)

lemma set_store_ok:
  assumes "set_store ev key v s = (Inr u, s')"
  shows "s' = s\<lparr>cache := (cache s)(key \<mapsto> v), dbPromise := Some ConnOpen,
                idb := (idb s)(key \<mapsto> v),
                trace := trace s @ open_effects s @ [DbPut key v]
                  @ notifications s key v (cache_get s key)
                  @ [Post \<lparr>mtype = MSet, mkey = Some key, mvalue = v,
                          moldValue = cache_get s key\<rparr>]\<rparr>"
proof -
  let ?s0 = "s\<lparr>cache := (cache s)(key \<mapsto> v)\<rparr>"
  let ?old = "cache_get s key"
  from assms obtain s1 s2 s3 u1 u2 u3 where
    a: "getDb ev ?s0 = (Inr u1, s1)" and
    b: "dbSet ev key v s1 = (Inr u2, s2)" and
    c: "notifyListeners ev key v ?old s2 = (Inr u3, s3)" and
    d: "postMessage ev \<lparr>mtype = MSet, mkey = Some key, mvalue = v, moldValue = ?old\<rparr> s3 = (Inr u, s')"
    by (auto simp: set_store_def Let_def and_then_Inr split: option.splits)
  from getDb_ok [OF a] have s1: "s1 = ?s0\<lparr>dbPromise := Some ConnOpen, trace := trace s @ open_effects s\<rparr>"
    by (cases "dbPromise s") (simp_all add: open_effects_def)
  from dbSet_ok [OF b] s1 have s2: "s2 = s1\<lparr>idb := (idb s)(key \<mapsto> v), trace := trace s1 @ [DbPut key v]\<rparr>"
    by simp
  have n: "notifications s2 key v ?old = notifications s key v ?old"
    by (simp add: s2 s1 notifications_def listeners_of_def)
  from notifyListeners_ok [OF c] n have s3: "s3 = s2\<lparr>trace := trace s2 @ notifications s key v ?old\<rparr>"
    by simp
  from postMessage_ok [OF d] have "s' = s3\<lparr>trace := trace s3 @ [Post \<lparr>mtype = MSet, mkey = Some key, mvalue = v, moldValue = ?old\<rparr>]\<rparr>" .
  then show ?thesis by (simp add: s3 s2 s1)
qed

lemma getDb_persistence:
  "fst (getDb ev s) = Inr () \<or> fst (getDb ev s) = Inl PersistenceError"
  by (simp add: getDb_def Let_def split: option.splits conn.splits)

lemma getDb_frame:
  "\<exists>es c. snd (getDb ev s) = s\<lparr>dbPromise := c, trace := trace s @ es\<rparr> \<and> posts es = []
      \<and> list_all (\<lambda>e. \<not> is_local e) es"
proof (cases "dbPromise s")
  case None
  let ?e = "DbOpen (dbName s) (storeName s)"
  have p: "posts [?e] = [] \<and> list_all (\<lambda>e. \<not> is_local e) [?e]" by simp
  show ?thesis
  proof (cases "open_fails ev")
    case True
    with None have "snd (getDb ev s) = s\<lparr>dbPromise := Some ConnFailed, trace := trace s @ [?e]\<rparr>"
      by (simp add: getDb_def Let_def record_effect_def)
    with p show ?thesis by blast
  next
    case False
    with None have "snd (getDb ev s) = s\<lparr>dbPromise := Some ConnOpen, trace := trace s @ [?e]\<rparr>"
      by (simp add: getDb_def Let_def record_effect_def)
    with p show ?thesis by blast
  qed
next
  case (Some c)
  then have "snd (getDb ev s) = s\<lparr>dbPromise := Some c, trace := trace s @ []\<rparr>"
    by (cases c) (simp_all add: getDb_def)
  moreover have "posts [] = [] \<and> list_all (\<lambda>e. \<not> is_local e) []" by simp
  ultimately show ?thesis by blast
qed

lemma set_store_persistence_failure:
  assumes v: "(case validators s key of None \<Rightarrow> None | Some validator \<Rightarrow> validator v) = None"
    and f: "persistence_fails ev s"
  shows "\<exists>es c. set_store ev key v s =
           (Inl PersistenceError,
            s\<lparr>cache := (cache s)(key \<mapsto> v), dbPromise := c, trace := trace s @ es\<rparr>)
         \<and> posts es = [] \<and> list_all (\<lambda>e. \<not> is_local e) es"
proof -
  let ?s0 = "s\<lparr>cache := (cache s)(key \<mapsto> v)\<rparr>"
  obtain es c where g: "snd (getDb ev ?s0) = ?s0\<lparr>dbPromise := c, trace := trace ?s0 @ es\<rparr>"
    and es: "posts es = []" "list_all (\<lambda>e. \<not> is_local e) es"
    using getDb_frame by blast
  show ?thesis
  proof (cases "fst (getDb ev ?s0)")
    case (Inl e)
    with getDb_persistence [of ev ?s0] have "fst (getDb ev ?s0) = Inl PersistenceError" by simp
    with g have "getDb ev ?s0 = (Inl PersistenceError, ?s0\<lparr>dbPromise := c, trace := trace ?s0 @ es\<rparr>)"
      by (metis prod.collapse)
    with v have "set_store ev key v s
        = (Inl PersistenceError, s\<lparr>cache := (cache s)(key \<mapsto> v), dbPromise := c, trace := trace s @ es\<rparr>)"
      by (simp add: set_store_def Let_def and_then_def)
    with es show ?thesis by blast
  next
    case (Inr u)
    with g have g': "getDb ev ?s0 = (Inr (), ?s0\<lparr>dbPromise := c, trace := trace ?s0 @ es\<rparr>)"
      by (metis prod.collapse old.unit.exhaust)
    from Inr f have d: "db_fails ev"
      by (auto simp: getDb_def persistence_fails_def Let_def split: option.splits conn.splits if_splits)
    let ?s1 = "?s0\<lparr>dbPromise := c, trace := trace ?s0 @ es\<rparr>"
    from d have "dbSet ev key v ?s1 = (Inl PersistenceError, ?s1\<lparr>trace := trace ?s1 @ [DbPut key v]\<rparr>)"
      by (simp add: dbSet_def Let_def record_effect_def)
    with v g' have "set_store ev key v s
        = (Inl PersistenceError,
           s\<lparr>cache := (cache s)(key \<mapsto> v), dbPromise := c, trace := trace s @ (es @ [DbPut key v])\<rparr>)"
      by (simp add: set_store_def Let_def and_then_def)
    moreover from es have "posts (es @ [DbPut key v]) = []" "list_all (\<lambda>e. \<not> is_local e) (es @ [DbPut key v])"
      by (simp_all add: posts_append)
    ultimately show ?thesis by blast
  qed
qed

lemma posts_local: "list_all is_local es \<Longrightarrow> posts es = []"
  by (induction es rule: posts.induct) simp_all

lemma getDb_run:
  "\<not> persistence_fails ev s \<Longrightarrow>
     getDb ev s = (Inr (), s\<lparr>dbPromise := Some ConnOpen, trace := trace s @ open_effects s\<rparr>)
     \<and> \<not> db_fails ev"
  by (auto simp: persistence_fails_def getDb_def open_effects_def record_effect_def Let_def
      split: option.splits conn.splits)

lemma notify_each_quiet:
  "list_all (\<lambda>k. list_all (\<lambda>l. \<not> listener_throws ev l Undefined Undefined) (listeners_of s k)) keys
   \<Longrightarrow> notify_each ev keys s =
     (Inr (), s\<lparr>trace := trace s @ concat (map (\<lambda>k. notifications s k Undefined Undefined) keys)\<rparr>)"
proof (induction keys arbitrary: s)
  case Nil
  then show ?case by simp
next
  case (Cons k keys)
  let ?s1 = "s\<lparr>trace := trace s @ notifications s k Undefined Undefined\<rparr>"
  from Cons.prems have a: "notifyListeners ev k Undefined Undefined s = (Inr (), ?s1)"
    by (simp add: notifyListeners_quiet)
  have l: "\<And>k'. listeners_of ?s1 k' = listeners_of s k'"
    by (simp add: listeners_of_def)
  then have n: "\<And>k'. notifications ?s1 k' Undefined Undefined = notifications s k' Undefined Undefined"
    by (simp add: notifications_def)
  from Cons.prems l have "list_all (\<lambda>k. list_all (\<lambda>l. \<not> listener_throws ev l Undefined Undefined)
      (listeners_of ?s1 k)) keys"
    by simp
  from Cons.IH [OF this] a show ?case by (simp add: and_then_def n)
qed

lemma notify_each_frame:
  "\<exists>es. snd (notify_each ev keys s) = s\<lparr>trace := trace s @ es\<rparr> \<and> list_all is_local es"
proof (induction keys arbitrary: s)
  case Nil
  have "s = s\<lparr>trace := trace s @ []\<rparr>" by simp
  moreover have "list_all is_local []" by simp
  ultimately show ?case by (metis notify_each.simps(1) snd_conv)
next
  case (Cons k keys)
  obtain r s1 where c: "notifyListeners ev k Undefined Undefined s = (r, s1)"
    by (cases "notifyListeners ev k Undefined Undefined s")
  obtain es where es: "s1 = s\<lparr>trace := trace s @ es\<rparr>" "list_all is_local es"
    using notifyListeners_frame [of ev k Undefined Undefined s] c by auto
  show ?case
  proof (cases r)
    case (Inl e)
    with c have "snd (notify_each ev (k # keys) s) = s1" by (simp add: and_then_def)
    with es show ?thesis by blast
  next
    case (Inr u)
    from Cons.IH [of s1] obtain es' where
      es': "snd (notify_each ev keys s1) = s1\<lparr>trace := trace s1 @ es'\<rparr>" "list_all is_local es'"
      by blast
    from Inr c es' es(1) have "snd (notify_each ev (k # keys) s) = s\<lparr>trace := trace s @ (es @ es')\<rparr>"
      by (simp add: and_then_def)
    moreover from es(2) es'(2) have "list_all is_local (es @ es')" by simp
    ultimately show ?thesis by blast
  qed
qed

lemma onmessage_set_quiet:
  assumes "mtype m = MSet" and "mkey m = Some key" and "mvalue m \<noteq> Undefined"
    and "list_all (\<lambda>l. \<not> listener_throws ev l (mvalue m) (moldValue m)) (listeners_of s key)"
  shows "onmessage ev m s =
    (Inr (), s\<lparr>cache := (cache s)(key \<mapsto> mvalue m),
               trace := trace s @ notifications s key (mvalue m) (moldValue m)\<rparr>)"
proof -
  let ?s0 = "s\<lparr>cache := (cache s)(key \<mapsto> mvalue m)\<rparr>"
  have l: "listeners_of ?s0 key = listeners_of s key" by (simp add: listeners_of_def)
  with assms(4) have "notifyListeners ev key (mvalue m) (moldValue m) ?s0
      = (Inr (), ?s0\<lparr>trace := trace ?s0 @ notifications ?s0 key (mvalue m) (moldValue m)\<rparr>)"
    by (simp add: notifyListeners_quiet)
  with assms(1-3) l show ?thesis by (simp add: onmessage_def notifications_def)
qed

lemma onmessage_delete_quiet:
  assumes "mtype m = MDelete" and "mkey m = Some key"
    and "list_all (\<lambda>l. \<not> listener_throws ev l Undefined (cache_get s key)) (listeners_of s key)"
  shows "onmessage ev m s =
    (Inr (), s\<lparr>cache := (cache s)(key := None),
               trace := trace s @ notifications s key Undefined (cache_get s key)\<rparr>)"
proof -
  let ?s0 = "s\<lparr>cache := (cache s)(key := None)\<rparr>"
  have l: "listeners_of ?s0 key = listeners_of s key" by (simp add: listeners_of_def)
  with assms(3) have "notifyListeners ev key Undefined (cache_get s key) ?s0
      = (Inr (), ?s0\<lparr>trace := trace ?s0 @ notifications ?s0 key Undefined (cache_get s key)\<rparr>)"
    by (simp add: notifyListeners_quiet)
  with assms(1,2) l show ?thesis by (simp add: onmessage_def notifications_def Let_def)
qed

lemma onmessage_clear_quiet:
  assumes "mtype m = MClear"
    and "list_all (\<lambda>k. list_all (\<lambda>l. \<not> listener_throws ev l Undefined Undefined) (listeners_of s k))
           (map fst (listeners s))"
  shows "onmessage ev m s =
    (Inr (), s\<lparr>cache := Map.empty,
               trace := trace s @ concat (map (\<lambda>k. notifications s k Undefined Undefined)
                                              (map fst (listeners s)))\<rparr>)"
proof -
  let ?s0 = "s\<lparr>cache := Map.empty\<rparr>"
  have l: "\<And>k. listeners_of ?s0 k = listeners_of s k" by (simp add: listeners_of_def)
  then have n: "\<And>k. notifications ?s0 k Undefined Undefined = notifications s k Undefined Undefined"
    by (simp add: notifications_def)
  from assms(2) l have "list_all (\<lambda>k. list_all (\<lambda>l. \<not> listener_throws ev l Undefined Undefined)
      (listeners_of ?s0 k)) (map fst (listeners s))"
    by simp
  from notify_each_quiet [OF this] assms(1) show ?thesis by (simp add: onmessage_def n)
qed

lemma onmessage_frame:
  "\<exists>es c. snd (onmessage ev m s) = s\<lparr>cache := c, trace := trace s @ es\<rparr> \<and> list_all is_local es"
proof -
  have triv: "s = s\<lparr>cache := cache s, trace := trace s @ []\<rparr> \<and> list_all is_local []" by simp
  have step: "\<exists>es c. snd (notifyListeners ev k a b (s\<lparr>cache := c0\<rparr>))
      = s\<lparr>cache := c, trace := trace s @ es\<rparr> \<and> list_all is_local es" for k a b c0
    using notifyListeners_frame [of ev k a b "s\<lparr>cache := c0\<rparr>"] by auto
  have all: "\<exists>es c. snd (notify_each ev ks (s\<lparr>cache := c0\<rparr>))
      = s\<lparr>cache := c, trace := trace s @ es\<rparr> \<and> list_all is_local es" for ks c0
    using notify_each_frame [of ev ks "s\<lparr>cache := c0\<rparr>"] by auto
  consider (set) key where "mtype m = MSet" "mkey m = Some key" "mvalue m \<noteq> Undefined"
    | (delete) key where "mtype m = MDelete" "mkey m = Some key"
    | (clear) "mtype m = MClear"
    | (ignored) "onmessage ev m s = (Inr (), s)"
    by (cases "mtype m"; cases "mkey m"; cases "mvalue m = Undefined") (auto simp: onmessage_def)
  then show ?thesis
  proof cases
    case set
    then show ?thesis using step by (simp add: onmessage_def)
  next
    case delete
    then show ?thesis using step by (simp add: onmessage_def Let_def)
  next
    case clear
    then show ?thesis using all by (simp add: onmessage_def)
  next
    case ignored
    with triv show ?thesis by (metis snd_conv)
  qed
qed

lemma open_effects_cache: "open_effects (s\<lparr>cache := c\<rparr>) = open_effects s"
  by (simp add: open_effects_def split: option.splits)

lemma dbSet_run:
  "\<not> db_fails ev \<Longrightarrow>
     dbSet ev key v s = (Inr (), s\<lparr>idb := (idb s)(key \<mapsto> v), trace := trace s @ [DbPut key v]\<rparr>)"
  by (simp add: dbSet_def record_effect_def Let_def)

lemma dbDelete_run:
  "\<not> db_fails ev \<Longrightarrow>
     dbDelete ev key s = (Inr (), s\<lparr>idb := (idb s)(key := None), trace := trace s @ [DbDelete key]\<rparr>)"
  by (simp add: dbDelete_def record_effect_def Let_def)

lemma dbClear_run:
  "\<not> db_fails ev \<Longrightarrow>
     dbClear ev s = (Inr (), s\<lparr>idb := Map.empty, trace := trace s @ [DbClear]\<rparr>)"
  by (simp add: dbClear_def record_effect_def Let_def)

lemma set_store_run:
  assumes v: "(case validators s key of None \<Rightarrow> None | Some validator \<Rightarrow> validator v) = None"
    and p: "\<not> persistence_fails ev s"
    and q: "list_all (\<lambda>l. \<not> listener_throws ev l v (cache_get s key)) (listeners_of s key)"
  shows "set_store ev key v s =
    postMessage ev \<lparr>mtype = MSet, mkey = Some key, mvalue = v, moldValue = cache_get s key\<rparr>
      (s\<lparr>cache := (cache s)(key \<mapsto> v), dbPromise := Some ConnOpen,
         idb := (idb s)(key \<mapsto> v),
         trace := trace s @ open_effects s @ [DbPut key v]
           @ notifications s key v (cache_get s key)\<rparr>)"
proof -
  let ?old = "cache_get s key"
  let ?s0 = "s\<lparr>cache := (cache s)(key \<mapsto> v)\<rparr>"
  let ?s1 = "?s0\<lparr>dbPromise := Some ConnOpen, trace := trace s @ open_effects s\<rparr>"
  let ?s2 = "?s1\<lparr>idb := (idb s)(key \<mapsto> v), trace := trace ?s1 @ [DbPut key v]\<rparr>"
  let ?s3 = "?s2\<lparr>trace := trace ?s2 @ notifications s key v ?old\<rparr>"
  from p have "\<not> persistence_fails ev ?s0" by (simp add: persistence_fails_def)
  from getDb_run [OF this] have a: "getDb ev ?s0 = (Inr (), ?s1)" and d: "\<not> db_fails ev"
    by (simp_all add: open_effects_cache)
  from dbSet_run [OF d, of key v ?s1] have b: "dbSet ev key v ?s1 = (Inr (), ?s2)" by simp
  have l: "listeners_of ?s2 key = listeners_of s key" by (simp add: listeners_of_def)
  then have n: "notifications ?s2 key v ?old = notifications s key v ?old"
    by (simp add: notifications_def)
  from q l have "list_all (\<lambda>l. \<not> listener_throws ev l v ?old) (listeners_of ?s2 key)" by simp
  from notifyListeners_quiet [OF this] n
  have c: "notifyListeners ev key v ?old ?s2 = (Inr (), ?s3)" by simp
  from a b c show ?thesis
    unfolding set_store_def Let_def v by (simp add: and_then_def)
qed

lemma del_run:
  assumes p: "\<not> persistence_fails ev s"
    and q: "list_all (\<lambda>l. \<not> listener_throws ev l Undefined (cache_get s key)) (listeners_of s key)"
  shows "del ev key s =
    postMessage ev \<lparr>mtype = MDelete, mkey = Some key, mvalue = Undefined, moldValue = cache_get s key\<rparr>
      (s\<lparr>cache := (cache s)(key := None), dbPromise := Some ConnOpen,
         idb := (idb s)(key := None),
         trace := trace s @ open_effects s @ [DbDelete key]
           @ notifications s key Undefined (cache_get s key)\<rparr>)"
proof -
  let ?old = "cache_get s key"
  let ?s0 = "s\<lparr>cache := (cache s)(key := None)\<rparr>"
  let ?s1 = "?s0\<lparr>dbPromise := Some ConnOpen, trace := trace s @ open_effects s\<rparr>"
  let ?s2 = "?s1\<lparr>idb := (idb s)(key := None), trace := trace ?s1 @ [DbDelete key]\<rparr>"
  let ?s3 = "?s2\<lparr>trace := trace ?s2 @ notifications s key Undefined ?old\<rparr>"
  from p have "\<not> persistence_fails ev ?s0" by (simp add: persistence_fails_def)
  from getDb_run [OF this] have a: "getDb ev ?s0 = (Inr (), ?s1)" and d: "\<not> db_fails ev"
    by (simp_all add: open_effects_cache)
  from dbDelete_run [OF d, of key ?s1] have b: "dbDelete ev key ?s1 = (Inr (), ?s2)" by simp
  have l: "listeners_of ?s2 key = listeners_of s key" by (simp add: listeners_of_def)
  then have n: "notifications ?s2 key Undefined ?old = notifications s key Undefined ?old"
    by (simp add: notifications_def)
  from q l have "list_all (\<lambda>l. \<not> listener_throws ev l Undefined ?old) (listeners_of ?s2 key)" by simp
  from notifyListeners_quiet [OF this] n
  have c: "notifyListeners ev key Undefined ?old ?s2 = (Inr (), ?s3)" by simp
  from a b c show ?thesis
    unfolding del_def Let_def by (simp add: and_then_def)
qed

lemma clear_run:
  assumes p: "\<not> persistence_fails ev s"
    and q: "list_all (\<lambda>k. list_all (\<lambda>l. \<not> listener_throws ev l Undefined Undefined) (listeners_of s k))
              (map fst (listeners s))"
  shows "clear ev s =
    postMessage ev \<lparr>mtype = MClear, mkey = None, mvalue = Undefined, moldValue = Undefined\<rparr>
      (s\<lparr>cache := Map.empty, dbPromise := Some ConnOpen, idb := Map.empty,
         trace := trace s @ open_effects s @ [DbClear]
           @ concat (map (\<lambda>k. notifications s k Undefined Undefined) (map fst (listeners s)))\<rparr>)"
proof -
  let ?keys = "map fst (listeners s)"
  let ?s0 = "s\<lparr>cache := Map.empty\<rparr>"
  let ?s1 = "?s0\<lparr>dbPromise := Some ConnOpen, trace := trace s @ open_effects s\<rparr>"
  let ?s2 = "?s1\<lparr>idb := Map.empty, trace := trace ?s1 @ [DbClear]\<rparr>"
  let ?s3 = "?s2\<lparr>trace := trace ?s2 @ concat (map (\<lambda>k. notifications s k Undefined Undefined) ?keys)\<rparr>"
  from p have "\<not> persistence_fails ev ?s0" by (simp add: persistence_fails_def)
  from getDb_run [OF this] have a: "getDb ev ?s0 = (Inr (), ?s1)" and d: "\<not> db_fails ev"
    by (simp_all add: open_effects_cache)
  from dbClear_run [OF d, of ?s1] have b: "dbClear ev ?s1 = (Inr (), ?s2)" by simp
  have l: "\<And>k. listeners_of ?s2 k = listeners_of s k" by (simp add: listeners_of_def)
  then have n: "\<And>k. notifications ?s2 k Undefined Undefined = notifications s k Undefined Undefined"
    by (simp add: notifications_def)
  from q l have "list_all (\<lambda>k. list_all (\<lambda>l. \<not> listener_throws ev l Undefined Undefined)
      (listeners_of ?s2 k)) ?keys" by simp
  from notify_each_quiet [OF this] n
  have c: "notify_each ev ?keys ?s2 = (Inr (), ?s3)" by simp
  from a b c show ?thesis
    unfolding clear_def Let_def by (simp add: and_then_def)
qed

lemma map_of_None_keys: "map_of al k = None \<longleftrightarrow> k \<notin> set (map fst al)"
  by (simp add: map_of_eq_None_iff)

lemma unsubscribe_listeners_of:
  "listeners_of (unsubscribe key l t) k' =
     (if k' = key then removeAll l (listeners_of t key) else listeners_of t k')"
proof (cases "map_of (listeners t) key")
  case None
  then show ?thesis by (simp add: unsubscribe_def listeners_of_def)
next
  case (Some fs)
  then show ?thesis
    by (simp add: unsubscribe_def listeners_of_def Let_def AList.update_conv' AList.delete_conv')
qed

lemma unsubscribe_keys:
  "map fst (listeners (unsubscribe key l t)) =
     (if removeAll l (listeners_of t key) = [] then removeAll key (map fst (listeners t))
      else map fst (listeners t))"
proof (cases "map_of (listeners t) key")
  case None
  then have "key \<notin> set (map fst (listeners t))" by (simp add: map_of_None_keys)
  with None show ?thesis by (simp add: unsubscribe_def listeners_of_def)
next
  case (Some fs)
  then have "key \<in> set (map fst (listeners t))"
    using map_of_None_keys [of "listeners t" key] by simp
  with Some show ?thesis
    by (simp add: unsubscribe_def listeners_of_def Let_def AList.delete_update_same
        AList.delete_keys AList.update_keys)
qed

lemma unsubscribe_idem:
  "unsubscribe key l (unsubscribe key l t) = unsubscribe key l t"
proof (cases "map_of (listeners t) key")
  case None
  then show ?thesis by (simp add: unsubscribe_def)
next
  case (Some fs)
  show ?thesis
  proof (cases "removeAll l fs = []")
    case True
    with Some have "map_of (listeners (unsubscribe key l t)) key = None"
      by (simp add: unsubscribe_def Let_def AList.delete_conv')
    then show ?thesis by (simp add: unsubscribe_def [of key l "unsubscribe key l t"])
  next
    case False
    with Some have u: "unsubscribe key l t
        = t\<lparr>listeners := AList.update key (removeAll l fs) (listeners t)\<rparr>"
      by (simp add: unsubscribe_def Let_def)
    have "map_of (AList.update key (removeAll l fs) (listeners t)) key = Some (removeAll l fs)"
      by (simp add: AList.update_conv')
    with False show ?thesis
      by (simp add: u unsubscribe_def [of key l "t\<lparr>listeners := _\<rparr>"] Let_def)
  qed
qed

lemma unsubscribe_frame:
  "unsubscribe key l t = t\<lparr>listeners := listeners (unsubscribe key l t)\<rparr>"
  by (simp add: unsubscribe_def Let_def split: option.splits)

lemma subscribe_registered: "registered (fst (subscribe key l s)) key l"
  by (simp add: subscribe_def registered_def listeners_of_def Let_def set_add_def
      AList.update_conv' split: option.splits)

lemma postMessage_fail:
  "channel_closed t \<or> post_fails ev \<Longrightarrow>
     postMessage ev m t = (Inl TransportError, t\<lparr>trace := trace t @ [Post m]\<rparr>)"
  by (auto simp: postMessage_def record_effect_def Let_def)

section \<open>Unfolding the model on concrete inputs\<close>

lemmas engine_defs =
  set_store_def del_def clear_def get_def getAll_def onmessage_def destroy_def
  subscribe_def unsubscribe_def set_add_def
  notifyListeners_def postMessage_def emitLocalEvent_def createEventName_def
  getDb_def dbGet_def dbSet_def dbDelete_def dbGetAll_def dbClear_def
  and_then_def record_effect_def cache_get_def createStore_def Let_def

lemmas example_defs =
  fresh_store_def subscribed_store_def validating_store_def default_options_def
  validating_options_def env_ok_def env_db_down_def env_post_down_def

lemmas vocabulary_defs =
  listeners_of_def registered_def notifications_def open_effects_def effects_since_def
  persistence_fails_def

section \<open>Properties of the store engine\<close>

text \<open>
  Claim C1. When the validator registered for the key throws on the value, \<^verbatim>\<open>set\<close>
  fails with the validator's error and leaves every part of the state as it was: the
  cache, the object store of IndexedDB and the record of calls (no request to the
  database, no listener call, no event, no post). A \<^verbatim>\<open>get\<close> afterwards therefore
  behaves as it would have before the call.
\<close>

theorem set_validation_gate:
  assumes "validators s key = Some validator" and "validator v = Some msg"
  shows "set_store ev key v s = (Inl (ValidationError msg), s)
         \<and> cache (snd (set_store ev key v s)) = cache s
         \<and> idb (snd (set_store ev key v s)) = idb s
         \<and> effects_since s (snd (set_store ev key v s)) = []
         \<and> get ev' key (snd (set_store ev key v s)) = get ev' key s"
  using assms by (simp add: set_store_def effects_since_def)

theorem set_validation_gate_witness:
  "validators validating_store ''username'' = Some username_validator
   \<and> username_validator (JNum 42) = Some ''username must be a string''
   \<and> set_store env_ok ''username'' (JNum 42) validating_store
       = (Inl (ValidationError ''username must be a string''), validating_store)
   \<and> effects_since validating_store
        (snd (set_store env_ok ''username'' (JNum 42) validating_store)) = []
   \<and> get env_ok ''username'' (snd (set_store env_ok ''username'' (JNum 42) validating_store))
       = get env_ok ''username'' validating_store"
proof -
  have h1: "validators validating_store ''username'' = Some username_validator"
    by (simp add: validating_store_def createStore_def validating_options_def Let_def)
  have h2: "username_validator (JNum 42) = Some ''username must be a string''"
    by (simp add: username_validator_def)
  from set_validation_gate [OF h1 h2, of env_ok env_ok] h1 h2 show ?thesis by blast
qed

text \<open>
  Claim C2. A \<^verbatim>\<open>set\<close> that succeeds adds to the record of calls, after the write to
  the database: one call of each listener registered for the key (in registration
  order) with \<open>(value, oldValue)\<close>, then one event named
  \<open>store:channelName:key\<close>, then one post of the message
  \<open>Set{key, value, oldValue}\<close>, and nothing else.
\<close>

theorem set_notifies_once_in_order:
  assumes "set_store ev key v s = (Inr (), s')"
  shows "trace s' = trace s @ open_effects s @ [DbPut key v]
           @ map (\<lambda>l. Invoke l v (cache_get s key)) (listeners_of s key)
           @ [Emit (createEventName (channelName s) key) v (cache_get s key),
              Post \<lparr>mtype = MSet, mkey = Some key, mvalue = v, moldValue = cache_get s key\<rparr>]"
  using set_store_ok [OF assms] by (simp add: notifications_def)

theorem set_notifies_once_in_order_witness:
  "fst (set_store env_ok ''user'' (JStr ''Alice'') subscribed_store) = Inr ()
   \<and> trace (snd (set_store env_ok ''user'' (JStr ''Alice'') subscribed_store))
       = [DbOpen ''mfe-store'' ''store'', DbPut ''user'' (JStr ''Alice''),
          Invoke 1 (JStr ''Alice'') Undefined, Invoke 2 (JStr ''Alice'') Undefined,
          Emit ''store:mfe-store:user'' (JStr ''Alice'') Undefined,
          Post \<lparr>mtype = MSet, mkey = Some ''user'', mvalue = JStr ''Alice'',
                moldValue = Undefined\<rparr>]"
proof -
  have ok: "fst (set_store env_ok ''user'' (JStr ''Alice'') subscribed_store) = Inr ()"
    by (simp add: engine_defs example_defs)
  then have h: "set_store env_ok ''user'' (JStr ''Alice'') subscribed_store
      = (Inr (), snd (set_store env_ok ''user'' (JStr ''Alice'') subscribed_store))"
    by (metis prod.collapse)
  have "trace subscribed_store = []" "open_effects subscribed_store = [DbOpen ''mfe-store'' ''store'']"
    "listeners_of subscribed_store ''user'' = [1, 2]" "cache_get subscribed_store ''user'' = Undefined"
    "channelName subscribed_store = ''mfe-store''"
    by (simp_all add: engine_defs example_defs vocabulary_defs)
  with set_notifies_once_in_order [OF h] ok show ?thesis
    by (simp add: createEventName_def)
qed

text \<open>
  Claim C3. An inbound \<^verbatim>\<open>delete\<close> message carries the sender's old value, and the
  receiver is to notify its listeners and the event bus with \<open>(undefined, oldValue)\<close>
  for that value, as the \<^verbatim>\<open>set\<close> branch of the same handler does with the old value
  of a \<^verbatim>\<open>set\<close> message. The \<^verbatim>\<open>delete\<close> branch passes the receiver's own cached
  value instead. At a receiver with listeners 1 and 2 on \<^verbatim>\<open>user\<close> and nothing cached,
  the message \<open>Delete{user, oldValue = Alice}\<close> is reported as
  \<open>(undefined, undefined)\<close>, while \<open>Set{user, Bob, oldValue = Alice}\<close> is reported
  as \<open>(Bob, Alice)\<close>.
\<close>

theorem onmessage_delete_drops_message_old_value:
  "effects_since subscribed_store
     (snd (onmessage env_ok
        \<lparr>mtype = MDelete, mkey = Some ''user'', mvalue = Undefined, moldValue = JStr ''Alice''\<rparr>
        subscribed_store))
     = [Invoke 1 Undefined Undefined, Invoke 2 Undefined Undefined,
        Emit ''store:mfe-store:user'' Undefined Undefined]
   \<and> effects_since subscribed_store
     (snd (onmessage env_ok
        \<lparr>mtype = MDelete, mkey = Some ''user'', mvalue = Undefined, moldValue = JStr ''Alice''\<rparr>
        subscribed_store))
     \<noteq> [Invoke 1 Undefined (JStr ''Alice''), Invoke 2 Undefined (JStr ''Alice''),
        Emit ''store:mfe-store:user'' Undefined (JStr ''Alice'')]
   \<and> effects_since subscribed_store
     (snd (onmessage env_ok
        \<lparr>mtype = MSet, mkey = Some ''user'', mvalue = JStr ''Bob'', moldValue = JStr ''Alice''\<rparr>
        subscribed_store))
     = [Invoke 1 (JStr ''Bob'') (JStr ''Alice''), Invoke 2 (JStr ''Bob'') (JStr ''Alice''),
        Emit ''store:mfe-store:user'' (JStr ''Bob'') (JStr ''Alice'')]"
  by (simp add: engine_defs example_defs vocabulary_defs)

text \<open>
  Claim C4. When validation lets the value pass and the persistence step of
  \<^verbatim>\<open>set\<close> fails (opening the database or the \<^verbatim>\<open>put\<close> request), the caller gets
  the persistence error, the object store is unchanged, and the cache keeps the new
  value: a \<^verbatim>\<open>get\<close> afterwards returns it from the cache.
\<close>

theorem set_persistence_failure_keeps_cache:
  assumes "(case validators s key of None \<Rightarrow> None | Some validator \<Rightarrow> validator v) = None"
    and "persistence_fails ev s"
  shows "fst (set_store ev key v s) = Inl PersistenceError
         \<and> cache (snd (set_store ev key v s)) = (cache s)(key \<mapsto> v)
         \<and> idb (snd (set_store ev key v s)) = idb s
         \<and> get ev' key (snd (set_store ev key v s)) = (Inr v, snd (set_store ev key v s))"
proof -
  from set_store_persistence_failure [OF assms] obtain es c where
    "set_store ev key v s =
       (Inl PersistenceError, s\<lparr>cache := (cache s)(key \<mapsto> v), dbPromise := c, trace := trace s @ es\<rparr>)"
    by blast
  then show ?thesis by (simp add: get_def)
qed

theorem set_persistence_failure_keeps_cache_witness:
  "persistence_fails env_db_down fresh_store
   \<and> fst (set_store env_db_down ''user'' (JStr ''Alice'') fresh_store) = Inl PersistenceError
   \<and> cache (snd (set_store env_db_down ''user'' (JStr ''Alice'') fresh_store)) ''user''
       = Some (JStr ''Alice'')
   \<and> idb (snd (set_store env_db_down ''user'' (JStr ''Alice'') fresh_store)) ''user'' = None
   \<and> fst (get env_ok ''user'' (snd (set_store env_db_down ''user'' (JStr ''Alice'') fresh_store)))
       = Inr (JStr ''Alice'')"
proof -
  have h1: "(case validators fresh_store ''user'' of None \<Rightarrow> None
             | Some validator \<Rightarrow> validator (JStr ''Alice'')) = None"
    by (simp add: fresh_store_def createStore_def default_options_def Let_def)
  have h2: "persistence_fails env_db_down fresh_store"
    by (simp add: persistence_fails_def env_db_down_def fresh_store_def createStore_def
        default_options_def Let_def)
  have h3: "idb fresh_store ''user'' = None"
    by (simp add: fresh_store_def createStore_def default_options_def Let_def)
  from set_persistence_failure_keeps_cache [OF h1 h2, of env_ok] h2 h3 show ?thesis by simp
qed

text \<open>
  Claim C5. \<^verbatim>\<open>channel.postMessage\<close> is the last statement of \<^verbatim>\<open>set\<close>, \<^verbatim>\<open>delete\<close>
  and \<^verbatim>\<open>clear\<close> and is not guarded. When validation, persistence and this call's
  listeners succeed and the post throws (the channel was closed by \<^verbatim>\<open>destroy\<close>, or the
  transport fails), the call is rejected with the transport's error, and what went
  before stays: the cache and the object store hold the change, and the record of calls
  shows the database request, each listener of the key called once, the local event,
  and the attempted post.
\<close>

theorem transport_failure_is_surfaced:
  assumes "channel_closed s \<or> post_fails ev" and "\<not> persistence_fails ev s"
  shows
    "((case validators s key of None \<Rightarrow> None | Some validator \<Rightarrow> validator v) = None
        \<and> list_all (\<lambda>l. \<not> listener_throws ev l v (cache_get s key)) (listeners_of s key) \<longrightarrow>
      set_store ev key v s =
        (Inl TransportError,
         s\<lparr>cache := (cache s)(key \<mapsto> v), dbPromise := Some ConnOpen,
            idb := (idb s)(key \<mapsto> v),
            trace := trace s @ open_effects s @ [DbPut key v]
              @ map (\<lambda>l. Invoke l v (cache_get s key)) (listeners_of s key)
              @ [Emit (createEventName (channelName s) key) v (cache_get s key),
                 Post \<lparr>mtype = MSet, mkey = Some key, mvalue = v,
                       moldValue = cache_get s key\<rparr>]\<rparr>))
     \<and> (list_all (\<lambda>l. \<not> listener_throws ev l Undefined (cache_get s key)) (listeners_of s key) \<longrightarrow>
      del ev key s =
        (Inl TransportError,
         s\<lparr>cache := (cache s)(key := None), dbPromise := Some ConnOpen,
            idb := (idb s)(key := None),
            trace := trace s @ open_effects s @ [DbDelete key]
              @ map (\<lambda>l. Invoke l Undefined (cache_get s key)) (listeners_of s key)
              @ [Emit (createEventName (channelName s) key) Undefined (cache_get s key),
                 Post \<lparr>mtype = MDelete, mkey = Some key, mvalue = Undefined,
                       moldValue = cache_get s key\<rparr>]\<rparr>))
     \<and> (list_all (\<lambda>k. list_all (\<lambda>l. \<not> listener_throws ev l Undefined Undefined)
              (listeners_of s k)) (map fst (listeners s)) \<longrightarrow>
      clear ev s =
        (Inl TransportError,
         s\<lparr>cache := Map.empty, dbPromise := Some ConnOpen, idb := Map.empty,
            trace := trace s @ open_effects s @ [DbClear]
              @ concat (map (\<lambda>k. map (\<lambda>l. Invoke l Undefined Undefined) (listeners_of s k)
                                   @ [Emit (createEventName (channelName s) k) Undefined Undefined])
                            (map fst (listeners s)))
              @ [Post \<lparr>mtype = MClear, mkey = None, mvalue = Undefined,
                       moldValue = Undefined\<rparr>]\<rparr>))"
proof -
  have fail: "postMessage ev m t = (Inl TransportError, t\<lparr>trace := trace t @ [Post m]\<rparr>)"
    if "channel_closed t = channel_closed s" for m t
    using assms(1) that postMessage_fail [of t ev m] by simp
  have a: "set_store ev key v s =
        (Inl TransportError,
         s\<lparr>cache := (cache s)(key \<mapsto> v), dbPromise := Some ConnOpen,
            idb := (idb s)(key \<mapsto> v),
            trace := trace s @ open_effects s @ [DbPut key v]
              @ map (\<lambda>l. Invoke l v (cache_get s key)) (listeners_of s key)
              @ [Emit (createEventName (channelName s) key) v (cache_get s key),
                 Post \<lparr>mtype = MSet, mkey = Some key, mvalue = v,
                       moldValue = cache_get s key\<rparr>]\<rparr>)"
    if "(case validators s key of None \<Rightarrow> None | Some validator \<Rightarrow> validator v) = None"
      "list_all (\<lambda>l. \<not> listener_throws ev l v (cache_get s key)) (listeners_of s key)"
    by (simp add: set_store_run [OF that(1) assms(2) that(2)] fail notifications_def)
  have b: "del ev key s =
        (Inl TransportError,
         s\<lparr>cache := (cache s)(key := None), dbPromise := Some ConnOpen,
            idb := (idb s)(key := None),
            trace := trace s @ open_effects s @ [DbDelete key]
              @ map (\<lambda>l. Invoke l Undefined (cache_get s key)) (listeners_of s key)
              @ [Emit (createEventName (channelName s) key) Undefined (cache_get s key),
                 Post \<lparr>mtype = MDelete, mkey = Some key, mvalue = Undefined,
                       moldValue = cache_get s key\<rparr>]\<rparr>)"
    if "list_all (\<lambda>l. \<not> listener_throws ev l Undefined (cache_get s key)) (listeners_of s key)"
    by (simp add: del_run [OF assms(2) that] fail notifications_def)
  have c: "clear ev s =
        (Inl TransportError,
         s\<lparr>cache := Map.empty, dbPromise := Some ConnOpen, idb := Map.empty,
            trace := trace s @ open_effects s @ [DbClear]
              @ concat (map (\<lambda>k. map (\<lambda>l. Invoke l Undefined Undefined) (listeners_of s k)
                                   @ [Emit (createEventName (channelName s) k) Undefined Undefined])
                            (map fst (listeners s)))
              @ [Post \<lparr>mtype = MClear, mkey = None, mvalue = Undefined,
                       moldValue = Undefined\<rparr>]\<rparr>)"
    if "list_all (\<lambda>k. list_all (\<lambda>l. \<not> listener_throws ev l Undefined Undefined)
              (listeners_of s k)) (map fst (listeners s))"
    by (simp add: clear_run [OF assms(2) that] fail notifications_def)
  from a b c show ?thesis by blast
qed

theorem transport_failure_is_surfaced_witness:
  "set_store env_post_down ''user'' (JStr ''Alice'') subscribed_store =
     (Inl TransportError,
      subscribed_store\<lparr>cache := [''user'' \<mapsto> JStr ''Alice''], dbPromise := Some ConnOpen,
        idb := [''user'' \<mapsto> JStr ''Alice''],
        trace := [DbOpen ''mfe-store'' ''store'', DbPut ''user'' (JStr ''Alice''),
                  Invoke 1 (JStr ''Alice'') Undefined, Invoke 2 (JStr ''Alice'') Undefined,
                  Emit ''store:mfe-store:user'' (JStr ''Alice'') Undefined,
                  Post \<lparr>mtype = MSet, mkey = Some ''user'', mvalue = JStr ''Alice'',
                        moldValue = Undefined\<rparr>]\<rparr>)
   \<and> del env_post_down ''user'' subscribed_store =
     (Inl TransportError,
      subscribed_store\<lparr>cache := Map.empty, dbPromise := Some ConnOpen, idb := Map.empty,
        trace := [DbOpen ''mfe-store'' ''store'', DbDelete ''user'',
                  Invoke 1 Undefined Undefined, Invoke 2 Undefined Undefined,
                  Emit ''store:mfe-store:user'' Undefined Undefined,
                  Post \<lparr>mtype = MDelete, mkey = Some ''user'', mvalue = Undefined,
                        moldValue = Undefined\<rparr>]\<rparr>)
   \<and> clear env_post_down subscribed_store =
     (Inl TransportError,
      subscribed_store\<lparr>cache := Map.empty, dbPromise := Some ConnOpen, idb := Map.empty,
        trace := [DbOpen ''mfe-store'' ''store'', DbClear,
                  Invoke 1 Undefined Undefined, Invoke 2 Undefined Undefined,
                  Emit ''store:mfe-store:user'' Undefined Undefined,
                  Invoke 3 Undefined Undefined,
                  Emit ''store:mfe-store:count'' Undefined Undefined,
                  Post \<lparr>mtype = MClear, mkey = None, mvalue = Undefined,
                        moldValue = Undefined\<rparr>]\<rparr>)"
proof -
  let ?s = subscribed_store
  have f: "listeners ?s = [(''user'', [1, 2]), (''count'', [3])]" "trace ?s = []"
    "channelName ?s = ''mfe-store''" "open_effects ?s = [DbOpen ''mfe-store'' ''store'']"
    "cache ?s = Map.empty" "idb ?s = Map.empty" "cache_get ?s ''user'' = Undefined"
    by (simp_all add: engine_defs example_defs vocabulary_defs)
  have g: "listeners_of ?s ''user'' = [1, 2]" "listeners_of ?s ''count'' = [3]"
    by (simp_all add: listeners_of_def f)
  have h1: "channel_closed ?s \<or> post_fails env_post_down"
    by (simp add: env_post_down_def)
  have h2: "\<not> persistence_fails env_post_down ?s"
    by (simp add: engine_defs example_defs vocabulary_defs)
  have h3: "(case validators ?s ''user'' of None \<Rightarrow> None
             | Some validator \<Rightarrow> validator (JStr ''Alice'')) = None"
    by (simp add: engine_defs example_defs)
  have q: "listener_throws env_post_down = (\<lambda>l a b. False)" by (simp add: env_post_down_def)
  from transport_failure_is_surfaced [OF h1 h2, where key = "''user''" and v = "JStr ''Alice''"] h3 show ?thesis
    by (simp add: f g q createEventName_def)
qed

theorem transport_failure_counterexample:
  "fst (set_store env_post_down ''user'' (JStr ''Alice'') fresh_store) = Inl TransportError
   \<and> fst (del env_post_down ''user'' fresh_store) = Inl TransportError
   \<and> fst (clear env_post_down fresh_store) = Inl TransportError
   \<and> fst (set_store env_ok ''user'' (JStr ''Alice'') (destroy fresh_store)) = Inl TransportError"
  by (simp add: engine_defs example_defs)

text \<open>
  Claim C6. Handling an inbound message never posts: the messages posted so far are
  the same before and after, for every message and whatever the listeners do. The
  database is not touched, and everything the handler adds to the record of calls is a
  listener call or a local event. The cache update and the notifications are behind the
  guards of the handler: a \<^verbatim>\<open>set\<close> message with key and value defined puts the value
  in the cache, a \<^verbatim>\<open>delete\<close> message with the key defined removes the key, a
  \<^verbatim>\<open>clear\<close> message empties the cache; when no listener throws, each is followed
  by its round of listener calls and its event. A message that fails the guards, such
  as the \<open>Set{count, undefined}\<close> that \<^verbatim>\<open>set(count, undefined)\<close> posts, changes
  nothing and notifies nobody.
\<close>

theorem onmessage_never_posts:
  assumes "onmessage ev m s = (r, s')"
  shows "posts (trace s') = posts (trace s)
    \<and> idb s' = idb s
    \<and> trace s' = trace s @ effects_since s s'
    \<and> list_all is_local (effects_since s s')
    \<and> (mtype m = MSet \<and> mkey m = Some key \<and> mvalue m \<noteq> Undefined \<longrightarrow>
         cache s' = (cache s)(key \<mapsto> mvalue m)
         \<and> (list_all (\<lambda>l. \<not> listener_throws ev l (mvalue m) (moldValue m)) (listeners_of s key) \<longrightarrow>
              effects_since s s' =
                map (\<lambda>l. Invoke l (mvalue m) (moldValue m)) (listeners_of s key)
                  @ [Emit (createEventName (channelName s) key) (mvalue m) (moldValue m)]))
    \<and> (mtype m = MDelete \<and> mkey m = Some key \<longrightarrow>
         cache s' = (cache s)(key := None)
         \<and> (list_all (\<lambda>l. \<not> listener_throws ev l Undefined (cache_get s key)) (listeners_of s key) \<longrightarrow>
              effects_since s s' =
                map (\<lambda>l. Invoke l Undefined (cache_get s key)) (listeners_of s key)
                  @ [Emit (createEventName (channelName s) key) Undefined (cache_get s key)]))
    \<and> (mtype m = MClear \<longrightarrow>
         cache s' = Map.empty
         \<and> (list_all (\<lambda>k. list_all (\<lambda>l. \<not> listener_throws ev l Undefined Undefined)
                (listeners_of s k)) (map fst (listeners s)) \<longrightarrow>
              effects_since s s' =
                concat (map (\<lambda>k. map (\<lambda>l. Invoke l Undefined Undefined) (listeners_of s k)
                                   @ [Emit (createEventName (channelName s) k) Undefined Undefined])
                            (map fst (listeners s)))))"
proof -
  from onmessage_frame [of ev m s] assms obtain es c where
    s': "s' = s\<lparr>cache := c, trace := trace s @ es\<rparr>" and es: "list_all is_local es"
    by auto
  have since: "effects_since s s' = es" by (simp add: s' effects_since_def)
  have a: "posts (trace s') = posts (trace s)"
    using posts_local [OF es] by (simp add: s' posts_append)
  have b: "idb s' = idb s" by (simp add: s')
  have c: "trace s' = trace s @ effects_since s s'" by (simp add: since) (simp add: s')
  have d: "list_all is_local (effects_since s s')" by (simp add: since es)
  have frame: "cache (snd (notifyListeners ev k x y t)) = cache t" for k x y t
    using notifyListeners_frame [of ev k x y t] by (metis store.select_convs(5) store.surjective store.update_convs(10))
  have frame_all: "cache (snd (notify_each ev ks t)) = cache t" for ks t
    using notify_each_frame [of ev ks t] by (metis store.select_convs(5) store.surjective store.update_convs(10))
  have e: "cache s' = (cache s)(key \<mapsto> mvalue m)"
    if "mtype m = MSet" "mkey m = Some key" "mvalue m \<noteq> Undefined"
    using that assms frame [of key "mvalue m" "moldValue m" "s\<lparr>cache := (cache s)(key \<mapsto> mvalue m)\<rparr>"]
    by (simp add: onmessage_def)
  have e': "effects_since s s' = map (\<lambda>l. Invoke l (mvalue m) (moldValue m)) (listeners_of s key)
                  @ [Emit (createEventName (channelName s) key) (mvalue m) (moldValue m)]"
    if "mtype m = MSet" "mkey m = Some key" "mvalue m \<noteq> Undefined"
      "list_all (\<lambda>l. \<not> listener_throws ev l (mvalue m) (moldValue m)) (listeners_of s key)"
    using onmessage_set_quiet [OF that] assms by (simp add: effects_since_def notifications_def)
  have f: "cache s' = (cache s)(key := None)" if "mtype m = MDelete" "mkey m = Some key"
    using that assms frame [of key Undefined "cache_get s key" "s\<lparr>cache := (cache s)(key := None)\<rparr>"]
    by (simp add: onmessage_def Let_def)
  have f': "effects_since s s' = map (\<lambda>l. Invoke l Undefined (cache_get s key)) (listeners_of s key)
                  @ [Emit (createEventName (channelName s) key) Undefined (cache_get s key)]"
    if "mtype m = MDelete" "mkey m = Some key"
      "list_all (\<lambda>l. \<not> listener_throws ev l Undefined (cache_get s key)) (listeners_of s key)"
    using onmessage_delete_quiet [OF that] assms by (simp add: effects_since_def notifications_def)
  have g: "cache s' = Map.empty" if "mtype m = MClear"
    using that assms frame_all [of "map fst (listeners s)" "s\<lparr>cache := Map.empty\<rparr>"]
    by (simp add: onmessage_def)
  have g': "effects_since s s' =
                concat (map (\<lambda>k. map (\<lambda>l. Invoke l Undefined Undefined) (listeners_of s k)
                                   @ [Emit (createEventName (channelName s) k) Undefined Undefined])
                            (map fst (listeners s)))"
    if "mtype m = MClear"
      "list_all (\<lambda>k. list_all (\<lambda>l. \<not> listener_throws ev l Undefined Undefined)
                (listeners_of s k)) (map fst (listeners s))"
    using onmessage_clear_quiet [OF that] assms by (simp add: effects_since_def notifications_def)
  from a b c d e e' f f' g g' show ?thesis by blast
qed

theorem onmessage_never_posts_witness:
  "posts (trace (snd (onmessage env_ok
       \<lparr>mtype = MSet, mkey = Some ''user'', mvalue = JStr ''Alice'', moldValue = Undefined\<rparr>
       subscribed_store))) = []
   \<and> cache (snd (onmessage env_ok
       \<lparr>mtype = MSet, mkey = Some ''user'', mvalue = JStr ''Alice'', moldValue = Undefined\<rparr>
       subscribed_store)) ''user'' = Some (JStr ''Alice'')
   \<and> effects_since subscribed_store (snd (onmessage env_ok
       \<lparr>mtype = MSet, mkey = Some ''user'', mvalue = JStr ''Alice'', moldValue = Undefined\<rparr>
       subscribed_store))
     = [Invoke 1 (JStr ''Alice'') Undefined, Invoke 2 (JStr ''Alice'') Undefined,
        Emit ''store:mfe-store:user'' (JStr ''Alice'') Undefined]"
proof -
  let ?m = "\<lparr>mtype = MSet, mkey = Some ''user'', mvalue = JStr ''Alice'', moldValue = Undefined\<rparr>"
  let ?s' = "snd (onmessage env_ok ?m subscribed_store)"
  have h: "onmessage env_ok ?m subscribed_store = (fst (onmessage env_ok ?m subscribed_store), ?s')"
    by simp
  have f: "listeners_of subscribed_store ''user'' = [1, 2]" "trace subscribed_store = []"
    "channelName subscribed_store = ''mfe-store''"
    by (simp_all add: engine_defs example_defs vocabulary_defs)
  have q: "list_all (\<lambda>l. \<not> listener_throws env_ok l (mvalue ?m) (moldValue ?m))
      (listeners_of subscribed_store ''user'')"
    by (simp add: f env_ok_def)
  from onmessage_never_posts [OF h, of "''user''"] q show ?thesis
    by (simp add: f createEventName_def)
qed

theorem onmessage_guarded_counterexample:
  "listeners_of (subscribed_store\<lparr>cache := [''count'' \<mapsto> JNum 1]\<rparr>) ''count'' = [3]
   \<and> onmessage env_ok
       \<lparr>mtype = MSet, mkey = Some ''count'', mvalue = Undefined, moldValue = JNum 1\<rparr>
       (subscribed_store\<lparr>cache := [''count'' \<mapsto> JNum 1]\<rparr>)
     = (Inr (), subscribed_store\<lparr>cache := [''count'' \<mapsto> JNum 1]\<rparr>)
   \<and> cache (snd (onmessage env_ok
       \<lparr>mtype = MSet, mkey = Some ''count'', mvalue = Undefined, moldValue = JNum 1\<rparr>
       (subscribed_store\<lparr>cache := [''count'' \<mapsto> JNum 1]\<rparr>))) ''count'' = Some (JNum 1)
   \<and> effects_since (subscribed_store\<lparr>cache := [''count'' \<mapsto> JNum 1]\<rparr>)
       (snd (onmessage env_ok
         \<lparr>mtype = MSet, mkey = Some ''count'', mvalue = Undefined, moldValue = JNum 1\<rparr>
         (subscribed_store\<lparr>cache := [''count'' \<mapsto> JNum 1]\<rparr>))) = []
   \<and> onmessage env_ok
       \<lparr>mtype = MDelete, mkey = None, mvalue = Undefined, moldValue = Undefined\<rparr>
       (subscribed_store\<lparr>cache := [''count'' \<mapsto> JNum 1]\<rparr>)
     = (Inr (), subscribed_store\<lparr>cache := [''count'' \<mapsto> JNum 1]\<rparr>)"
proof -
  have f: "listeners subscribed_store = [(''user'', [1, 2]), (''count'', [3])]"
    by (simp add: engine_defs example_defs)
  have a: "listeners_of (subscribed_store\<lparr>cache := [''count'' \<mapsto> JNum 1]\<rparr>) ''count'' = [3]"
    by (simp add: listeners_of_def f)
  have b: "onmessage env_ok
       \<lparr>mtype = MSet, mkey = Some ''count'', mvalue = Undefined, moldValue = JNum 1\<rparr>
       (subscribed_store\<lparr>cache := [''count'' \<mapsto> JNum 1]\<rparr>)
     = (Inr (), subscribed_store\<lparr>cache := [''count'' \<mapsto> JNum 1]\<rparr>)"
    by (simp add: onmessage_def)
  have c: "onmessage env_ok
       \<lparr>mtype = MDelete, mkey = None, mvalue = Undefined, moldValue = Undefined\<rparr>
       (subscribed_store\<lparr>cache := [''count'' \<mapsto> JNum 1]\<rparr>)
     = (Inr (), subscribed_store\<lparr>cache := [''count'' \<mapsto> JNum 1]\<rparr>)"
    by (simp add: onmessage_def)
  show ?thesis unfolding b c by (simp add: a effects_since_def)
qed

text \<open>
  Claim C7. When no collaborator fails, \<^verbatim>\<open>clear\<close> succeeds, leaves the cache and the
  object store empty, and adds to the record of calls: the \<^verbatim>\<open>clear\<close> request to
  the database, then for each key of the registry, in order, one call of each of its
  listeners with \<open>(undefined, undefined)\<close> and one event for the key, then one post
  of \<open>Clear{}\<close>. The values the cache held play no part.
\<close>

theorem clear_empties_and_notifies_registry:
  assumes "\<not> persistence_fails ev s"
    and "list_all (\<lambda>k. list_all (\<lambda>l. \<not> listener_throws ev l Undefined Undefined) (listeners_of s k))
           (map fst (listeners s))"
    and "\<not> channel_closed s" and "\<not> post_fails ev"
  shows "clear ev s =
    (Inr (),
     s\<lparr>cache := Map.empty, dbPromise := Some ConnOpen, idb := Map.empty,
        trace := trace s @ open_effects s @ [DbClear]
          @ concat (map (\<lambda>k. map (\<lambda>l. Invoke l Undefined Undefined) (listeners_of s k)
                               @ [Emit (createEventName (channelName s) k) Undefined Undefined])
                        (map fst (listeners s)))
          @ [Post \<lparr>mtype = MClear, mkey = None, mvalue = Undefined, moldValue = Undefined\<rparr>]\<rparr>)"
  using clear_run [OF assms(1,2)] assms(3,4)
  by (simp add: postMessage_def record_effect_def Let_def notifications_def)

theorem clear_empties_and_notifies_registry_witness:
  "clear env_ok (subscribed_store\<lparr>cache := [''user'' \<mapsto> JStr ''Bob''], idb := [''age'' \<mapsto> JNum 25]\<rparr>)
   = (Inr (),
      subscribed_store\<lparr>cache := Map.empty, dbPromise := Some ConnOpen, idb := Map.empty,
        trace := [DbOpen ''mfe-store'' ''store'', DbClear,
                  Invoke 1 Undefined Undefined, Invoke 2 Undefined Undefined,
                  Emit ''store:mfe-store:user'' Undefined Undefined,
                  Invoke 3 Undefined Undefined,
                  Emit ''store:mfe-store:count'' Undefined Undefined,
                  Post \<lparr>mtype = MClear, mkey = None, mvalue = Undefined, moldValue = Undefined\<rparr>]\<rparr>)"
proof -
  let ?s = "subscribed_store\<lparr>cache := [''user'' \<mapsto> JStr ''Bob''], idb := [''age'' \<mapsto> JNum 25]\<rparr>"
  have f: "listeners ?s = [(''user'', [1, 2]), (''count'', [3])]" "trace ?s = []"
    "channelName ?s = ''mfe-store''" "open_effects ?s = [DbOpen ''mfe-store'' ''store'']"
    by (simp_all add: engine_defs example_defs vocabulary_defs)
  have g: "listeners_of ?s ''user'' = [1, 2]" "listeners_of ?s ''count'' = [3]"
    by (simp_all add: listeners_of_def f)
  have h1: "\<not> persistence_fails env_ok ?s"
    by (simp add: engine_defs example_defs vocabulary_defs)
  have h2: "list_all (\<lambda>k. list_all (\<lambda>l. \<not> listener_throws env_ok l Undefined Undefined)
      (listeners_of ?s k)) (map fst (listeners ?s))"
    by (simp add: env_ok_def list_all_iff)
  have h3: "\<not> channel_closed ?s" by (simp add: engine_defs example_defs)
  have h4: "\<not> post_fails env_ok" by (simp add: env_ok_def)
  from clear_empties_and_notifies_registry [OF h1 h2 h3 h4] show ?thesis
    by (simp add: f g createEventName_def)
qed

text \<open>
  Claim C8. With no validator for the key, a \<^verbatim>\<open>set\<close> that succeeds is followed by a
  \<^verbatim>\<open>get\<close> that returns the value written and leaves the state, and so the record of
  calls, untouched: the read is served by the cache whatever the database would do.
\<close>

theorem set_then_get:
  assumes "validators s key = None" and "set_store ev key v s = (Inr (), s')"
  shows "get ev' key s' = (Inr v, s')"
  using set_store_ok [OF assms(2)] by (simp add: get_def)

theorem set_then_get_witness:
  "validators fresh_store ''count'' = None
   \<and> fst (set_store env_ok ''count'' (JNum 3) fresh_store) = Inr ()
   \<and> get env_db_down ''count'' (snd (set_store env_ok ''count'' (JNum 3) fresh_store))
       = (Inr (JNum 3), snd (set_store env_ok ''count'' (JNum 3) fresh_store))"
proof -
  have h1: "validators fresh_store ''count'' = None"
    by (simp add: engine_defs example_defs)
  have ok: "fst (set_store env_ok ''count'' (JNum 3) fresh_store) = Inr ()"
    by (simp add: engine_defs example_defs)
  then have h2: "set_store env_ok ''count'' (JNum 3) fresh_store
      = (Inr (), snd (set_store env_ok ''count'' (JNum 3) fresh_store))"
    by (metis prod.collapse)
  from set_then_get [OF h1 h2, of env_db_down] h1 ok show ?thesis by simp
qed

text \<open>
  Claim C9. The function returned by \<^verbatim>\<open>subscribe(key, listener)\<close>, called in any state
  of the store: afterwards exactly the pair \<open>(key, listener)\<close> is gone from the
  registry, the other listeners of the key keep their order, the key itself is dropped
  exactly when no listener is left for it, nothing but the registry changes, and a
  second call changes nothing. The function has no failing branch.
\<close>

theorem unsubscribe_exact_and_idempotent:
  assumes "subscribe key l s = (s1, unsub)"
  shows "registered s1 key l
    \<and> (registered (unsub t) k' l' \<longleftrightarrow> registered t k' l' \<and> (k', l') \<noteq> (key, l))
    \<and> listeners_of (unsub t) key = removeAll l (listeners_of t key)
    \<and> map fst (listeners (unsub t)) =
        (if removeAll l (listeners_of t key) = [] then removeAll key (map fst (listeners t))
         else map fst (listeners t))
    \<and> unsub t = t\<lparr>listeners := listeners (unsub t)\<rparr>
    \<and> unsub (unsub t) = unsub t"
proof -
  from assms have u: "unsub = unsubscribe key l" and s1: "s1 = fst (subscribe key l s)"
    by (auto simp: subscribe_def Let_def)
  have a: "registered s1 key l" by (simp add: s1 subscribe_registered)
  have b: "registered (unsub t) k' l' \<longleftrightarrow> registered t k' l' \<and> (k', l') \<noteq> (key, l)"
    by (auto simp: u registered_def unsubscribe_listeners_of)
  have c: "listeners_of (unsub t) key = removeAll l (listeners_of t key)"
    by (simp add: u unsubscribe_listeners_of)
  have d: "map fst (listeners (unsub t)) =
        (if removeAll l (listeners_of t key) = [] then removeAll key (map fst (listeners t))
         else map fst (listeners t))"
    unfolding u by (rule unsubscribe_keys)
  have e: "unsub t = t\<lparr>listeners := listeners (unsub t)\<rparr>"
    unfolding u by (rule unsubscribe_frame)
  have f: "unsub (unsub t) = unsub t" unfolding u by (rule unsubscribe_idem)
  from a b c d e f show ?thesis by blast
qed

theorem unsubscribe_exact_and_idempotent_witness:
  "listeners (fst (subscribe ''count'' 3 (fst (subscribe ''user'' 2 (fst (subscribe ''user'' 1 fresh_store))))))
     = [(''user'', [1, 2]), (''count'', [3])]
   \<and> map fst (listeners (snd (subscribe ''count'' 3 (fst (subscribe ''user'' 2 (fst (subscribe ''user'' 1 fresh_store)))))
        subscribed_store)) = [''user'']
   \<and> listeners_of (snd (subscribe ''count'' 3 (fst (subscribe ''user'' 2 (fst (subscribe ''user'' 1 fresh_store)))))
        subscribed_store) ''count'' = []
   \<and> snd (subscribe ''count'' 3 (fst (subscribe ''user'' 2 (fst (subscribe ''user'' 1 fresh_store)))))
        (snd (subscribe ''count'' 3 (fst (subscribe ''user'' 2 (fst (subscribe ''user'' 1 fresh_store)))))
           subscribed_store)
     = snd (subscribe ''count'' 3 (fst (subscribe ''user'' 2 (fst (subscribe ''user'' 1 fresh_store)))))
        subscribed_store"
proof -
  let ?s = "fst (subscribe ''user'' 2 (fst (subscribe ''user'' 1 fresh_store)))"
  have h: "subscribe ''count'' 3 ?s = (subscribed_store, snd (subscribe ''count'' 3 ?s))"
    by (simp add: subscribed_store_def)
  have f: "listeners subscribed_store = [(''user'', [1, 2]), (''count'', [3])]"
    by (simp add: engine_defs example_defs)
  have g: "listeners_of subscribed_store ''count'' = [3]"
    by (simp add: listeners_of_def f)
  from unsubscribe_exact_and_idempotent [OF h, of subscribed_store] f g show ?thesis
    by (simp add: subscribed_store_def)
qed

text \<open>
  Claim C10. An inbound message of type \<^verbatim>\<open>set\<close> whose value or key is
  \<^verbatim>\<open>undefined\<close> passes none of the three guards of the handler: the state is
  unchanged, so the cache is not modified and no listener or event fires.
\<close>

theorem onmessage_ignores_undefined_set:
  assumes "mtype m = MSet" and "mvalue m = Undefined \<or> mkey m = None"
  shows "onmessage ev m s = (Inr (), s)"
  using assms by (auto simp: onmessage_def)

theorem onmessage_ignores_undefined_set_witness:
  "onmessage env_ok
     \<lparr>mtype = MSet, mkey = Some ''user'', mvalue = Undefined, moldValue = JStr ''Alice''\<rparr>
     subscribed_store = (Inr (), subscribed_store)
   \<and> onmessage env_ok
     \<lparr>mtype = MSet, mkey = None, mvalue = JStr ''Bob'', moldValue = Undefined\<rparr>
     subscribed_store = (Inr (), subscribed_store)"
  using onmessage_ignores_undefined_set [of
      "\<lparr>mtype = MSet, mkey = Some ''user'', mvalue = Undefined, moldValue = JStr ''Alice''\<rparr>"
      env_ok subscribed_store]
    onmessage_ignores_undefined_set [of
      "\<lparr>mtype = MSet, mkey = None, mvalue = JStr ''Bob'', moldValue = Undefined\<rparr>"
      env_ok subscribed_store]
  by simp

end
